theory Spec2Isabelle
  imports Main "HOL-Library.Multiset"
begin

section \<open>pyannote.metrics.matcher: label matching by optimal assignment\<close>

text \<open>
  A shallow embedding of \<^verbatim>\<open>src/pyannote/metrics/matcher.py\<close>: the two label predicates
  (\<^verbatim>\<open>LabelMatcher.match\<close>, \<^verbatim>\<open>UnknownSupportMixin.match\<close>) and
  \<^verbatim>\<open>LabelMatcher.__call__\<close>, which fills a square match matrix, hands \<^verbatim>\<open>1 - match\<close>
  to the assignment solver of the \<^verbatim>\<open>munkres\<close> package and classifies every pair of
  the returned mapping.
\<close>

subsection \<open>Python values and failures\<close>

text \<open>
  The exceptions the modelled code can raise. Indexing a list or an array out of range
  raises \<^verbatim>\<open>IndexError\<close>. The builtins \<^verbatim>\<open>len\<close> and \<^verbatim>\<open>list\<close> raise \<^verbatim>\<open>TypeError\<close> on an
  object without the method they need, \<^verbatim>\<open>len\<close> raises \<^verbatim>\<open>ValueError\<close> on a negative
  \<^verbatim>\<open>__len__\<close> and \<^verbatim>\<open>OverflowError\<close> on one that is too large, and both pass on
  whatever the object's own methods raise: \<open>OtherError name\<close> is any other exception,
  by the name of its class.
\<close>

datatype error = TypeError | IndexError | ValueError | OverflowError | OtherError string

text \<open>Sequencing of fallible steps: the first exception ends the computation.\<close>

definition and_then :: "error + 'a \<Rightarrow> ('a \<Rightarrow> error + 'b) \<Rightarrow> error + 'b" where
  "and_then x f = (case x of Inl e \<Rightarrow> Inl e | Inr v \<Rightarrow> f v)"

text \<open>
  The arguments \<^verbatim>\<open>rlabels\<close> and \<^verbatim>\<open>hlabels\<close> are arbitrary Python objects; the code
  applies \<^verbatim>\<open>len\<close> and then \<^verbatim>\<open>list\<close> to them, and nothing else. An object is
  therefore described by what the two builtins do on it:
  \<^item> \<open>PySequence xs\<close> is a list or tuple: \<^verbatim>\<open>len\<close> returns its length and
    \<^verbatim>\<open>list\<close> its items;
  \<^item> \<open>PyObject l it\<close> is any other object: \<^verbatim>\<open>len\<close> returns or raises \<open>l\<close>,
    \<^verbatim>\<open>list\<close> returns or raises \<open>it\<close>, with no relation assumed between the two.
  A generator that would yield \<open>xs\<close> is \<open>PyObject (Inl TypeError) (Inr xs)\<close>, an
  object whose \<^verbatim>\<open>__len__\<close> returns \<open>-1\<close> is \<open>PyObject (Inl ValueError) it\<close>, one
  that has \<^verbatim>\<open>__len__\<close> but cannot be iterated is \<open>PyObject (Inr n) (Inl TypeError)\<close>,
  and one whose iteration never ends exhausts the memory inside \<^verbatim>\<open>list\<close>:
  \<open>PyObject l (Inl (OtherError ''MemoryError''))\<close>.
\<close>

datatype 'a pyobj = PySequence "'a list" | PyObject "error + nat" "error + 'a list"

fun py_len :: "'a pyobj \<Rightarrow> error + nat" where
  "py_len (PySequence xs) = Inr (length xs)"
| "py_len (PyObject l it) = l"

fun py_list :: "'a pyobj \<Rightarrow> error + 'a list" where
  "py_list (PySequence xs) = Inr xs"
| "py_list (PyObject l it) = it"

text \<open>Indexing with a non-negative index: out of range raises \<^verbatim>\<open>IndexError\<close>.\<close>

definition py_index :: "'a list \<Rightarrow> nat \<Rightarrow> error + 'a" where
  "py_index xs i = (if i < length xs then Inr (xs ! i) else Inl IndexError)"

subsection \<open>Labels and the two predicates\<close>

text \<open>
  Modelled from the spec: the class \<^verbatim>\<open>Unknown\<close> of \<^verbatim>\<open>pyannote.core\<close> is imported, not
  defined, by the module. A label is either an ordinary value or an Unknown placeholder
  carrying its own distinguishing data (an instance number); \<^verbatim>\<open>==\<close> on labels is
  value equality, HOL's \<open>=\<close> on this type.
\<close>

datatype 'a label = Label 'a | Unknown nat

fun isinstance_Unknown :: "'a label \<Rightarrow> bool" where
  "isinstance_Unknown (Unknown i) = True"
| "isinstance_Unknown (Label v) = False"

text \<open>\<^verbatim>\<open>LabelMatcher.match\<close>\<close>

definition match :: "'l \<Rightarrow> 'l \<Rightarrow> bool" where
  "match rlabel hlabel = (rlabel = hlabel)"

text \<open>\<^verbatim>\<open>UnknownSupportMixin.match\<close>\<close>

definition match_unknown :: "'a label \<Rightarrow> 'a label \<Rightarrow> bool" where
  "match_unknown rlabel hlabel =
     (if isinstance_Unknown rlabel \<and> isinstance_Unknown hlabel then True
      else rlabel = hlabel)"

subsection \<open>Counts, details and the match matrix\<close>

text \<open>
  The two dictionaries of \<^verbatim>\<open>__call__\<close> have fixed keys (\<^verbatim>\<open>MATCH_CORRECT\<close>,
  \<^verbatim>\<open>MATCH_CONFUSION\<close>, \<^verbatim>\<open>MATCH_MISSED_DETECTION\<close>, \<^verbatim>\<open>MATCH_FALSE_ALARM\<close>,
  \<^verbatim>\<open>MATCH_TOTAL\<close>), so each is a record with one field per key.
\<close>

record counts =
  count_correct :: int
  count_confusion :: int
  count_missed_detection :: int
  count_false_alarm :: int
  count_total :: int

record 'l details =
  detail_correct :: "('l \<times> 'l) list"
  detail_confusion :: "('l \<times> 'l) list"
  detail_missed_detection :: "'l list"
  detail_false_alarm :: "'l list"

definition init_counts :: counts where
  "init_counts = \<lparr>count_correct = 0, count_confusion = 0, count_missed_detection = 0,
                  count_false_alarm = 0, count_total = 0\<rparr>"

definition init_details :: "'l details" where
  "init_details = \<lparr>detail_correct = [], detail_confusion = [],
                   detail_missed_detection = [], detail_false_alarm = []\<rparr>"

text \<open>\<^verbatim>\<open>np.zeros((N, N), dtype=bool)\<close>\<close>

definition zeros :: "nat \<Rightarrow> bool list list" where
  "zeros N = replicate N (replicate N False)"

text \<open>\<^verbatim>\<open>match[r, h] = v\<close>: an index outside the array raises \<^verbatim>\<open>IndexError\<close>.\<close>

definition set_entry :: "bool list list \<Rightarrow> nat \<Rightarrow> nat \<Rightarrow> bool \<Rightarrow> error + bool list list" where
  "set_entry M r h v =
     (if r < length M \<and> h < length (M ! r) then Inr (M[r := (M ! r)[h := v]])
      else Inl IndexError)"

text \<open>\<^verbatim>\<open>match[r, h]\<close>\<close>

definition get_entry :: "bool list list \<Rightarrow> nat \<Rightarrow> nat \<Rightarrow> error + bool" where
  "get_entry M r h = and_then (py_index M r) (\<lambda>row. py_index row h)"

text \<open>The inner loop \<^verbatim>\<open>for h, hlabel in enumerate(hlabels)\<close> for one row.\<close>

fun fill_row :: "('l \<Rightarrow> 'l \<Rightarrow> bool) \<Rightarrow> nat \<Rightarrow> 'l \<Rightarrow> (nat \<times> 'l) list \<Rightarrow> bool list list
                  \<Rightarrow> error + bool list list" where
  "fill_row mt r rlabel [] M = Inr M"
| "fill_row mt r rlabel ((h, hlabel) # hs) M =
     and_then (set_entry M r h (mt rlabel hlabel)) (fill_row mt r rlabel hs)"

text \<open>The outer loop \<^verbatim>\<open>for r, rlabel in enumerate(rlabels)\<close>.\<close>

fun fill_matrix :: "('l \<Rightarrow> 'l \<Rightarrow> bool) \<Rightarrow> (nat \<times> 'l) list \<Rightarrow> (nat \<times> 'l) list \<Rightarrow> bool list list
                     \<Rightarrow> error + bool list list" where
  "fill_matrix mt [] hs M = Inr M"
| "fill_matrix mt ((r, rlabel) # rs) hs M =
     and_then (fill_row mt r rlabel hs M) (fill_matrix mt rs hs)"

definition match_matrix :: "('l \<Rightarrow> 'l \<Rightarrow> bool) \<Rightarrow> nat \<Rightarrow> 'l list \<Rightarrow> 'l list
                            \<Rightarrow> error + bool list list" where
  "match_matrix mt N rlabels hlabels =
     fill_matrix mt (enumerate 0 rlabels) (enumerate 0 hlabels) (zeros N)"

text \<open>\<^verbatim>\<open>1 - match\<close>: the integer cost matrix, 0 where the labels match and 1 elsewhere.\<close>

definition cost_matrix :: "bool list list \<Rightarrow> int list list" where
  "cost_matrix M = map (map (\<lambda>b. 1 - (if b then 1 else 0))) M"

subsection \<open>Classification of the mapping\<close>

text \<open>
  One iteration of \<^verbatim>\<open>for r, h in mapping\<close>: the \<^verbatim>\<open>if\<close>/\<^verbatim>\<open>elif\<close> chain in the source's
  order, each branch adding one to its count and appending its detail.
\<close>

definition classify :: "nat \<Rightarrow> nat \<Rightarrow> 'l list \<Rightarrow> 'l list \<Rightarrow> bool list list \<Rightarrow> nat \<times> nat
                        \<Rightarrow> counts \<times> 'l details \<Rightarrow> error + (counts \<times> 'l details)" where
  "classify NR NH rlabels hlabels M p cd =
     (case p of (r, h) \<Rightarrow> case cd of (c, d) \<Rightarrow>
      if r \<ge> NR then
        and_then (py_index hlabels h) (\<lambda>hl.
          Inr (c\<lparr>count_false_alarm := count_false_alarm c + 1\<rparr>,
               d\<lparr>detail_false_alarm := detail_false_alarm d @ [hl]\<rparr>))
      else if h \<ge> NH then
        and_then (py_index rlabels r) (\<lambda>rl.
          Inr (c\<lparr>count_missed_detection := count_missed_detection c + 1\<rparr>,
               d\<lparr>detail_missed_detection := detail_missed_detection d @ [rl]\<rparr>))
      else
        and_then (get_entry M r h) (\<lambda>b.
          if b then
            and_then (py_index rlabels r) (\<lambda>rl. and_then (py_index hlabels h) (\<lambda>hl.
              Inr (c\<lparr>count_correct := count_correct c + 1\<rparr>,
                   d\<lparr>detail_correct := detail_correct d @ [(rl, hl)]\<rparr>)))
          else
            and_then (py_index rlabels r) (\<lambda>rl. and_then (py_index hlabels h) (\<lambda>hl.
              Inr (c\<lparr>count_confusion := count_confusion c + 1\<rparr>,
                   d\<lparr>detail_confusion := detail_confusion d @ [(rl, hl)]\<rparr>)))))"

fun loop_on_matches :: "nat \<Rightarrow> nat \<Rightarrow> 'l list \<Rightarrow> 'l list \<Rightarrow> bool list list \<Rightarrow> (nat \<times> nat) list
                         \<Rightarrow> counts \<times> 'l details \<Rightarrow> error + (counts \<times> 'l details)" where
  "loop_on_matches NR NH rlabels hlabels M [] cd = Inr cd"
| "loop_on_matches NR NH rlabels hlabels M (p # mapping) cd =
     and_then (classify NR NH rlabels hlabels M p cd)
         (loop_on_matches NR NH rlabels hlabels M mapping)"

subsection \<open>\<^verbatim>\<open>LabelMatcher.__call__\<close>\<close>

text \<open>
  The predicate \<open>mt\<close> is \<^verbatim>\<open>self.match\<close> (the subclass decides which one), and
  \<open>munkres\<close> is \<^verbatim>\<open>self._munkres.compute\<close>, the solver of the external \<^verbatim>\<open>munkres\<close>
  package: it takes the cost matrix and returns a list of (row, column) pairs.
\<close>

definition call :: "('l \<Rightarrow> 'l \<Rightarrow> bool) \<Rightarrow> (int list list \<Rightarrow> (nat \<times> nat) list)
                    \<Rightarrow> 'l pyobj \<Rightarrow> 'l pyobj \<Rightarrow> error + (counts \<times> 'l details)" where
  "call mt munkres rlabels hlabels =
     and_then (py_len rlabels) (\<lambda>NR.
     and_then (py_len hlabels) (\<lambda>NH.
     let N = max NR NH in
     if N = 0 then Inr (init_counts, init_details)
     else
       and_then (py_list rlabels) (\<lambda>rlabels.
       and_then (py_list hlabels) (\<lambda>hlabels.
       and_then (match_matrix mt N rlabels hlabels) (\<lambda>M.
       let mapping = munkres (cost_matrix M) in
       and_then (loop_on_matches NR NH rlabels hlabels M mapping (init_counts, init_details))
         (\<lambda>(c, d). Inr (c\<lparr>count_total := count_total c + int NR\<rparr>, d)))))))"

subsection \<open>The specification's vocabulary\<close>

text \<open>
  The four outcome kinds and the precedence by which the specification assigns one to
  a pair \<open>(r, h)\<close> of the mapping: a padding row first, then a padding column, then
  the entry of the match matrix.
\<close>

datatype kind = FalseAlarm | MissedDetection | Correct | Confusion

fun kind_of :: "nat \<Rightarrow> nat \<Rightarrow> bool list list \<Rightarrow> nat \<times> nat \<Rightarrow> kind" where
  "kind_of NR NH M (r, h) =
     (if r \<ge> NR then FalseAlarm
      else if h \<ge> NH then MissedDetection
      else if M ! r ! h then Correct
      else Confusion)"

definition pairs_of_kind :: "kind \<Rightarrow> nat \<Rightarrow> nat \<Rightarrow> bool list list \<Rightarrow> (nat \<times> nat) list
                             \<Rightarrow> (nat \<times> nat) list" where
  "pairs_of_kind k NR NH M mapping = filter (\<lambda>p. kind_of NR NH M p = k) mapping"

text \<open>
  The result the specification describes for a given match matrix and mapping: each count
  is the number of pairs of its kind, each detail list holds the labels of these pairs in
  the order of the mapping, and the total is \<open>NR\<close>.
\<close>

definition spec_classification :: "nat \<Rightarrow> nat \<Rightarrow> 'l list \<Rightarrow> 'l list \<Rightarrow> bool list list
                                   \<Rightarrow> (nat \<times> nat) list \<Rightarrow> counts \<times> 'l details" where
  "spec_classification NR NH rlabels hlabels M mapping =
     (\<lparr>count_correct = int (length (pairs_of_kind Correct NR NH M mapping)),
       count_confusion = int (length (pairs_of_kind Confusion NR NH M mapping)),
       count_missed_detection = int (length (pairs_of_kind MissedDetection NR NH M mapping)),
       count_false_alarm = int (length (pairs_of_kind FalseAlarm NR NH M mapping)),
       count_total = int NR\<rparr>,
      \<lparr>detail_correct =
         map (\<lambda>(r, h). (rlabels ! r, hlabels ! h)) (pairs_of_kind Correct NR NH M mapping),
       detail_confusion =
         map (\<lambda>(r, h). (rlabels ! r, hlabels ! h)) (pairs_of_kind Confusion NR NH M mapping),
       detail_missed_detection =
         map (\<lambda>(r, h). rlabels ! r) (pairs_of_kind MissedDetection NR NH M mapping),
       detail_false_alarm =
         map (\<lambda>(r, h). hlabels ! h) (pairs_of_kind FalseAlarm NR NH M mapping)\<rparr>)"

text \<open>
  An assignment: a one-to-one pairing of the \<open>N\<close> row indices with the \<open>N\<close> column
  indices, as a list of \<open>N\<close> pairs in any order.
\<close>

definition is_assignment :: "nat \<Rightarrow> (nat \<times> nat) list \<Rightarrow> bool" where
  "is_assignment N mapping \<longleftrightarrow>
     length mapping = N \<and> distinct (map fst mapping) \<and> distinct (map snd mapping) \<and>
     list_all (\<lambda>(r, h). r < N \<and> h < N) mapping"

text \<open>The total cost of a mapping, and the number of its pairs that join matching labels.\<close>

definition assignment_cost :: "int list list \<Rightarrow> (nat \<times> nat) list \<Rightarrow> int" where
  "assignment_cost C mapping = sum_list (map (\<lambda>(r, h). C ! r ! h) mapping)"

definition num_matched :: "('l \<Rightarrow> 'l \<Rightarrow> bool) \<Rightarrow> 'l list \<Rightarrow> 'l list \<Rightarrow> (nat \<times> nat) list \<Rightarrow> nat" where
  "num_matched mt rlabels hlabels mapping =
     length (filter (\<lambda>(r, h). r < length rlabels \<and> h < length hlabels \<and>
                               mt (rlabels ! r) (hlabels ! h)) mapping)"

text \<open>
  Every assignment in row order, by enumerating the permutations of the columns; a
  mapping is optimal when it is an assignment that costs no more than any of them.
\<close>

primrec insert_all :: "'a \<Rightarrow> 'a list \<Rightarrow> 'a list list" where
  "insert_all x [] = [[x]]"
| "insert_all x (y # ys) = (x # y # ys) # map (Cons y) (insert_all x ys)"

primrec perms :: "'a list \<Rightarrow> 'a list list" where
  "perms [] = [[]]"
| "perms (x # xs) = concat (map (insert_all x) (perms xs))"

definition all_assignments :: "nat \<Rightarrow> (nat \<times> nat) list list" where
  "all_assignments N = map (zip [0..<N]) (perms [0..<N])"

definition is_optimal :: "nat \<Rightarrow> int list list \<Rightarrow> (nat \<times> nat) list \<Rightarrow> bool" where
  "is_optimal N C mapping \<longleftrightarrow>
     is_assignment N mapping \<and>
     list_all (\<lambda>m'. assignment_cost C mapping \<le> assignment_cost C m') (all_assignments N)"

text \<open>
  What \<^verbatim>\<open>__call__\<close> hands to the solver on two lists, and what it gets back. The
  contract of the \<^verbatim>\<open>munkres\<close> package is stated on this one call: the solver returns an
  assignment of the padded indices, respectively one of least cost.
\<close>

definition solver_input :: "('l \<Rightarrow> 'l \<Rightarrow> bool) \<Rightarrow> 'l list \<Rightarrow> 'l list \<Rightarrow> int list list" where
  "solver_input mt rlabels hlabels =
     (case match_matrix mt (max (length rlabels) (length hlabels)) rlabels hlabels of
        Inr M \<Rightarrow> cost_matrix M
      | Inl e \<Rightarrow> [])"

definition computed_mapping :: "('l \<Rightarrow> 'l \<Rightarrow> bool) \<Rightarrow> (int list list \<Rightarrow> (nat \<times> nat) list)
                                \<Rightarrow> 'l list \<Rightarrow> 'l list \<Rightarrow> (nat \<times> nat) list" where
  "computed_mapping mt munkres rlabels hlabels = munkres (solver_input mt rlabels hlabels)"

definition returns_assignment :: "('l \<Rightarrow> 'l \<Rightarrow> bool) \<Rightarrow> (int list list \<Rightarrow> (nat \<times> nat) list)
                                  \<Rightarrow> 'l list \<Rightarrow> 'l list \<Rightarrow> bool" where
  "returns_assignment mt munkres rlabels hlabels \<longleftrightarrow>
     is_assignment (max (length rlabels) (length hlabels))
       (computed_mapping mt munkres rlabels hlabels)"

definition returns_optimal :: "('l \<Rightarrow> 'l \<Rightarrow> bool) \<Rightarrow> (int list list \<Rightarrow> (nat \<times> nat) list)
                               \<Rightarrow> 'l list \<Rightarrow> 'l list \<Rightarrow> bool" where
  "returns_optimal mt munkres rlabels hlabels \<longleftrightarrow>
     is_optimal (max (length rlabels) (length hlabels)) (solver_input mt rlabels hlabels)
       (computed_mapping mt munkres rlabels hlabels)"

text \<open>
  Modelled from the spec: the solver of the \<^verbatim>\<open>munkres\<close> package is not part of the
  module. Two solvers by exhaustive search stand for it in the examples: both return
  an assignment of least total cost, the first one found from either end of the
  enumeration, so they break ties differently.
\<close>

definition brute_force :: "int list list \<Rightarrow> (nat \<times> nat) list" where
  "brute_force C = arg_min_list (assignment_cost C) (all_assignments (length C))"

definition brute_force_last :: "int list list \<Rightarrow> (nat \<times> nat) list" where
  "brute_force_last C = arg_min_list (assignment_cost C) (rev (all_assignments (length C)))"

text \<open>
  A malformed input: one that \<^verbatim>\<open>len\<close> or \<^verbatim>\<open>list\<close> rejects, so that it cannot be
  turned into an indexable collection of known length.
\<close>

definition malformed :: "'a pyobj \<Rightarrow> bool" where
  "malformed x \<longleftrightarrow> isl (py_len x) \<or> isl (py_list x)"

text \<open>
  Auxiliary notions of the proofs: a square \<open>N \<times> N\<close> matrix, the closed form of the
  match matrix (the predicate inside both sequences, \<open>False\<close> on the padding), and the
  pairs the classification loop can index without leaving the two lists.
\<close>

definition well_shaped :: "nat \<Rightarrow> 'a list list \<Rightarrow> bool" where
  "well_shaped N M \<longleftrightarrow> length M = N \<and> list_all (\<lambda>row. length row = N) M"

definition padded_matrix :: "('l \<Rightarrow> 'l \<Rightarrow> bool) \<Rightarrow> nat \<Rightarrow> 'l list \<Rightarrow> 'l list \<Rightarrow> bool list list" where
  "padded_matrix mt N rlabels hlabels =
     map (\<lambda>r. map (\<lambda>h. r < length rlabels \<and> h < length hlabels \<and> mt (rlabels ! r) (hlabels ! h))
            [0..<N]) [0..<N]"

definition in_range :: "nat \<Rightarrow> nat \<Rightarrow> (nat \<times> nat) list \<Rightarrow> bool" where
  "in_range NR NH mapping = list_all (\<lambda>(r, h). h < NH \<or> (r < NR \<and> h < max NR NH)) mapping"

section \<open>Verification\<close>

subsection \<open>Supporting lemmas\<close>

lemma well_shaped_nth: "well_shaped N M \<Longrightarrow> r < N \<Longrightarrow> length (M ! r) = N"
  by (simp add: well_shaped_def list_all_length)

lemma well_shaped_zeros: "well_shaped N (zeros N)"
  by (simp add: well_shaped_def zeros_def list_all_length)

lemma well_shaped_update:
  "well_shaped N M \<Longrightarrow> r < N \<Longrightarrow> well_shaped N (M[r := (M ! r)[h := v]])"
  by (auto simp add: well_shaped_def list_all_length nth_list_update)

lemma set_entry_in_range:
  "well_shaped N M \<Longrightarrow> r < N \<Longrightarrow> h < N \<Longrightarrow>
   set_entry M r h v = Inr (M[r := (M ! r)[h := v]])"
  by (simp add: set_entry_def well_shaped_def list_all_length)

lemma nth_update2:
  "r < length M \<Longrightarrow> h < length (M ! r) \<Longrightarrow> r' < length M \<Longrightarrow>
   M[r := (M ! r)[h := v]] ! r' ! h' = (if r' = r \<and> h' = h then v else M ! r' ! h')"
  by (auto simp add: nth_list_update)

lemma fill_row_enumerate:
  "well_shaped N M \<Longrightarrow> r < N \<Longrightarrow> k + length hl \<le> N \<Longrightarrow>
   \<exists>M'. fill_row mt r rlabel (enumerate k hl) M = Inr M' \<and> well_shaped N M' \<and>
     (\<forall>r' < N. \<forall>h' < N. M' ! r' ! h' =
        (if r' = r \<and> k \<le> h' \<and> h' < k + length hl then mt rlabel (hl ! (h' - k))
         else M ! r' ! h'))"
proof (induction hl arbitrary: k M)
  case Nil
  then show ?case by auto
next
  case (Cons x hl)
  let ?M1 = "M[r := (M ! r)[k := mt rlabel x]]"
  have k: "k < N" using Cons.prems by simp
  have s: "set_entry M r k (mt rlabel x) = Inr ?M1"
    using Cons.prems k by (simp add: set_entry_in_range)
  have w1: "well_shaped N ?M1" using Cons.prems by (simp add: well_shaped_update)
  from Cons.IH[OF w1 Cons.prems(2), of "Suc k"] Cons.prems(3)
  obtain M' where M': "fill_row mt r rlabel (enumerate (Suc k) hl) ?M1 = Inr M'"
    "well_shaped N M'"
    "\<forall>r' < N. \<forall>h' < N. M' ! r' ! h' =
        (if r' = r \<and> Suc k \<le> h' \<and> h' < Suc k + length hl then mt rlabel (hl ! (h' - Suc k))
         else ?M1 ! r' ! h')"
    by auto
  have len: "length M = N" "length (M ! r) = N"
    using Cons.prems by (simp_all add: well_shaped_def list_all_length)
  have upd: "\<And>r' h'. r' < N \<Longrightarrow> h' < N \<Longrightarrow>
      ?M1 ! r' ! h' = (if r' = r \<and> h' = k then mt rlabel x else M ! r' ! h')"
    using len Cons.prems(2) k by (simp add: nth_update2)
  have "\<forall>r' < N. \<forall>h' < N. M' ! r' ! h' =
        (if r' = r \<and> k \<le> h' \<and> h' < k + length (x # hl) then mt rlabel ((x # hl) ! (h' - k))
         else M ! r' ! h')"
  proof (intro allI impI)
    fix r' h' assume r': "r' < N" and h': "h' < N"
    have "M' ! r' ! h' =
        (if r' = r \<and> Suc k \<le> h' \<and> h' < Suc k + length hl then mt rlabel (hl ! (h' - Suc k))
         else if r' = r \<and> h' = k then mt rlabel x else M ! r' ! h')"
      using M'(3) r' h' upd by simp
    then show "M' ! r' ! h' =
        (if r' = r \<and> k \<le> h' \<and> h' < k + length (x # hl) then mt rlabel ((x # hl) ! (h' - k))
         else M ! r' ! h')"
      by (auto simp add: nth_Cons' Suc_diff_Suc)
  qed
  with M'(1,2) s show ?case by (auto simp add: and_then_def)
qed

lemma fill_matrix_enumerate:
  "well_shaped N M \<Longrightarrow> k + length rl \<le> N \<Longrightarrow> length hl \<le> N \<Longrightarrow>
   \<exists>M'. fill_matrix mt (enumerate k rl) (enumerate 0 hl) M = Inr M' \<and> well_shaped N M' \<and>
     (\<forall>r' < N. \<forall>h' < N. M' ! r' ! h' =
        (if k \<le> r' \<and> r' < k + length rl \<and> h' < length hl then mt (rl ! (r' - k)) (hl ! h')
         else M ! r' ! h'))"
proof (induction rl arbitrary: k M)
  case Nil
  then show ?case by auto
next
  case (Cons x rl)
  have k: "k < N" using Cons.prems by simp
  from fill_row_enumerate[OF Cons.prems(1) k, of 0 hl mt x] Cons.prems(3)
  obtain M1 where M1: "fill_row mt k x (enumerate 0 hl) M = Inr M1" "well_shaped N M1"
    "\<forall>r' < N. \<forall>h' < N. M1 ! r' ! h' =
        (if r' = k \<and> h' < length hl then mt x (hl ! h') else M ! r' ! h')"
    by auto
  from Cons.IH[OF M1(2), of "Suc k"] Cons.prems(2,3)
  obtain M' where M': "fill_matrix mt (enumerate (Suc k) rl) (enumerate 0 hl) M1 = Inr M'"
    "well_shaped N M'"
    "\<forall>r' < N. \<forall>h' < N. M' ! r' ! h' =
        (if Suc k \<le> r' \<and> r' < Suc k + length rl \<and> h' < length hl
         then mt (rl ! (r' - Suc k)) (hl ! h') else M1 ! r' ! h')"
    by auto
  have "\<forall>r' < N. \<forall>h' < N. M' ! r' ! h' =
        (if k \<le> r' \<and> r' < k + length (x # rl) \<and> h' < length hl
         then mt ((x # rl) ! (r' - k)) (hl ! h') else M ! r' ! h')"
  proof (intro allI impI)
    fix r' h' assume r': "r' < N" and h': "h' < N"
    have "M' ! r' ! h' =
        (if Suc k \<le> r' \<and> r' < Suc k + length rl \<and> h' < length hl
         then mt (rl ! (r' - Suc k)) (hl ! h')
         else if r' = k \<and> h' < length hl then mt x (hl ! h') else M ! r' ! h')"
      using M'(3) M1(3) r' h' by simp
    then show "M' ! r' ! h' =
        (if k \<le> r' \<and> r' < k + length (x # rl) \<and> h' < length hl
         then mt ((x # rl) ! (r' - k)) (hl ! h') else M ! r' ! h')"
      by (auto simp add: nth_Cons' Suc_diff_Suc)
  qed
  with M1(1) M'(1,2) show ?case by (auto simp add: and_then_def)
qed

lemma well_shaped_padded: "well_shaped N (padded_matrix mt N rl hl)"
  by (simp add: well_shaped_def padded_matrix_def list_all_length)

lemma padded_matrix_nth:
  "r < N \<Longrightarrow> h < N \<Longrightarrow>
   padded_matrix mt N rl hl ! r ! h = (r < length rl \<and> h < length hl \<and> mt (rl ! r) (hl ! h))"
  by (simp add: padded_matrix_def)

lemma well_shaped_eqI:
  assumes "well_shaped N A" "well_shaped N B"
    and "\<And>r h. r < N \<Longrightarrow> h < N \<Longrightarrow> A ! r ! h = B ! r ! h"
  shows "A = B"
proof (rule nth_equalityI)
  show "length A = length B" using assms(1,2) by (simp add: well_shaped_def)
next
  fix r assume "r < length A"
  then have r: "r < N" using assms(1) by (simp add: well_shaped_def)
  show "A ! r = B ! r"
  proof (rule nth_equalityI)
    show "length (A ! r) = length (B ! r)"
      using assms(1,2) r by (simp add: well_shaped_nth)
  next
    fix h assume "h < length (A ! r)"
    then have "h < N" using assms(1) r by (simp add: well_shaped_nth)
    then show "A ! r ! h = B ! r ! h" using assms(3) r by simp
  qed
qed

lemma match_matrix_padded:
  assumes "length rl \<le> N" "length hl \<le> N"
  shows "match_matrix mt N rl hl = Inr (padded_matrix mt N rl hl)"
proof -
  from fill_matrix_enumerate[OF well_shaped_zeros, of 0 rl N hl mt] assms
  obtain M' where M': "fill_matrix mt (enumerate 0 rl) (enumerate 0 hl) (zeros N) = Inr M'"
    "well_shaped N M'"
    "\<forall>r' < N. \<forall>h' < N. M' ! r' ! h' =
        (if r' < length rl \<and> h' < length hl then mt (rl ! r') (hl ! h')
         else zeros N ! r' ! h')"
    by auto
  have "M' = padded_matrix mt N rl hl"
  proof (rule well_shaped_eqI[OF M'(2) well_shaped_padded])
    fix r h assume "r < N" "h < N"
    then show "M' ! r ! h = padded_matrix mt N rl hl ! r ! h"
      using M'(3) by (auto simp add: padded_matrix_nth zeros_def)
  qed
  with M'(1) show ?thesis by (simp add: match_matrix_def)
qed

lemma solver_input_padded:
  "solver_input mt rl hl = cost_matrix (padded_matrix mt (max (length rl) (length hl)) rl hl)"
  by (simp add: solver_input_def match_matrix_padded)

lemma computed_mapping_padded:
  "computed_mapping mt munkres rl hl =
     munkres (cost_matrix (padded_matrix mt (max (length rl) (length hl)) rl hl))"
  by (simp add: computed_mapping_def solver_input_padded)

lemma get_entry_in_range:
  "well_shaped N M \<Longrightarrow> r < N \<Longrightarrow> h < N \<Longrightarrow> get_entry M r h = Inr (M ! r ! h)"
  by (simp add: get_entry_def py_index_def and_then_def well_shaped_def list_all_length)

lemma classify_in_range:
  assumes "well_shaped (max (length rl) (length hl)) M"
    and "h < length hl \<or> (r < length rl \<and> h < max (length rl) (length hl))"
  shows "classify (length rl) (length hl) rl hl M (r, h) (c, d) =
     Inr (case kind_of (length rl) (length hl) M (r, h) of
            FalseAlarm \<Rightarrow> (c\<lparr>count_false_alarm := count_false_alarm c + 1\<rparr>,
                           d\<lparr>detail_false_alarm := detail_false_alarm d @ [hl ! h]\<rparr>)
          | MissedDetection \<Rightarrow> (c\<lparr>count_missed_detection := count_missed_detection c + 1\<rparr>,
                           d\<lparr>detail_missed_detection := detail_missed_detection d @ [rl ! r]\<rparr>)
          | Correct \<Rightarrow> (c\<lparr>count_correct := count_correct c + 1\<rparr>,
                           d\<lparr>detail_correct := detail_correct d @ [(rl ! r, hl ! h)]\<rparr>)
          | Confusion \<Rightarrow> (c\<lparr>count_confusion := count_confusion c + 1\<rparr>,
                           d\<lparr>detail_confusion := detail_confusion d @ [(rl ! r, hl ! h)]\<rparr>))"
proof -
  have "r < length rl \<Longrightarrow> h < length hl \<Longrightarrow> get_entry M r h = Inr (M ! r ! h)"
    using assms(1) by (simp add: get_entry_in_range)
  then show ?thesis using assms(2)
    by (auto simp add: classify_def py_index_def and_then_def)
qed

lemma loop_on_matches_in_range:
  assumes "well_shaped (max (length rl) (length hl)) M"
  shows "in_range (length rl) (length hl) m \<Longrightarrow>
   \<exists>c' d'. loop_on_matches (length rl) (length hl) rl hl M m (c, d) = Inr (c', d') \<and>
     count_correct c' = count_correct c + int (length (pairs_of_kind Correct (length rl) (length hl) M m)) \<and>
     count_confusion c' = count_confusion c + int (length (pairs_of_kind Confusion (length rl) (length hl) M m)) \<and>
     count_missed_detection c' = count_missed_detection c + int (length (pairs_of_kind MissedDetection (length rl) (length hl) M m)) \<and>
     count_false_alarm c' = count_false_alarm c + int (length (pairs_of_kind FalseAlarm (length rl) (length hl) M m)) \<and>
     count_total c' = count_total c \<and>
     detail_correct d' = detail_correct d @ map (\<lambda>(r, h). (rl ! r, hl ! h)) (pairs_of_kind Correct (length rl) (length hl) M m) \<and>
     detail_confusion d' = detail_confusion d @ map (\<lambda>(r, h). (rl ! r, hl ! h)) (pairs_of_kind Confusion (length rl) (length hl) M m) \<and>
     detail_missed_detection d' = detail_missed_detection d @ map (\<lambda>(r, h). rl ! r) (pairs_of_kind MissedDetection (length rl) (length hl) M m) \<and>
     detail_false_alarm d' = detail_false_alarm d @ map (\<lambda>(r, h). hl ! h) (pairs_of_kind FalseAlarm (length rl) (length hl) M m)"
proof (induction m arbitrary: c d)
  case Nil
  then show ?case by (simp add: pairs_of_kind_def)
next
  case (Cons p m)
  obtain r h where p: "p = (r, h)" by (cases p)
  have rng: "h < length hl \<or> (r < length rl \<and> h < max (length rl) (length hl))"
    and rest: "in_range (length rl) (length hl) m"
    using Cons.prems by (simp_all add: in_range_def p)
  note step = classify_in_range[OF assms rng, of c d]
  show ?case
  proof (cases "kind_of (length rl) (length hl) M (r, h)")
    case FalseAlarm
    from Cons.IH[OF rest, of "c\<lparr>count_false_alarm := count_false_alarm c + 1\<rparr>"
        "d\<lparr>detail_false_alarm := detail_false_alarm d @ [hl ! h]\<rparr>"]
    show ?thesis using step FalseAlarm
      by (auto simp add: p and_then_def pairs_of_kind_def simp del: kind_of.simps)
  next
    case MissedDetection
    from Cons.IH[OF rest, of "c\<lparr>count_missed_detection := count_missed_detection c + 1\<rparr>"
        "d\<lparr>detail_missed_detection := detail_missed_detection d @ [rl ! r]\<rparr>"]
    show ?thesis using step MissedDetection
      by (auto simp add: p and_then_def pairs_of_kind_def simp del: kind_of.simps)
  next
    case Correct
    from Cons.IH[OF rest, of "c\<lparr>count_correct := count_correct c + 1\<rparr>"
        "d\<lparr>detail_correct := detail_correct d @ [(rl ! r, hl ! h)]\<rparr>"]
    show ?thesis using step Correct
      by (auto simp add: p and_then_def pairs_of_kind_def simp del: kind_of.simps)
  next
    case Confusion
    from Cons.IH[OF rest, of "c\<lparr>count_confusion := count_confusion c + 1\<rparr>"
        "d\<lparr>detail_confusion := detail_confusion d @ [(rl ! r, hl ! h)]\<rparr>"]
    show ?thesis using step Confusion
      by (auto simp add: p and_then_def pairs_of_kind_def simp del: kind_of.simps)
  qed
qed

lemma distinct_bounded_set:
  assumes "distinct xs" "length xs = N" "\<forall>x \<in> set xs. x < N"
  shows "set xs = {..<N}"
proof (rule card_subset_eq)
  show "finite {..<N}" by simp
  show "set xs \<subseteq> {..<N}" using assms(3) by auto
  show "card (set xs) = card {..<N}" using assms(1,2) by (simp add: distinct_card)
qed

lemma assignment_rows: "is_assignment N m \<Longrightarrow> set (map fst m) = {..<N}"
  by (rule distinct_bounded_set) (auto simp add: is_assignment_def list_all_iff)

lemma assignment_cols: "is_assignment N m \<Longrightarrow> set (map snd m) = {..<N}"
  by (rule distinct_bounded_set) (auto simp add: is_assignment_def list_all_iff)

lemma assignment_bounds: "is_assignment N m \<Longrightarrow> (r, h) \<in> set m \<Longrightarrow> r < N \<and> h < N"
  by (auto simp add: is_assignment_def list_all_iff)

lemma count_rows_from:
  assumes "is_assignment N m"
  shows "length (filter (\<lambda>p. K \<le> fst p) m) = N - K"
proof -
  have "length (filter (\<lambda>p. K \<le> fst p) m) = length (filter (\<lambda>r. K \<le> r) (map fst m))"
    by (simp add: filter_map comp_def)
  also have "\<dots> = card ({r. K \<le> r} \<inter> set (map fst m))"
    using assms by (intro distinct_length_filter) (simp add: is_assignment_def)
  also have "{r. K \<le> r} \<inter> set (map fst m) = {K..<N}"
    unfolding assignment_rows[OF assms] by auto
  finally show ?thesis by simp
qed

lemma count_cols_from:
  assumes "is_assignment N m"
  shows "length (filter (\<lambda>p. K \<le> snd p) m) = N - K"
proof -
  have "length (filter (\<lambda>p. K \<le> snd p) m) = length (filter (\<lambda>r. K \<le> r) (map snd m))"
    by (simp add: filter_map comp_def)
  also have "\<dots> = card ({r. K \<le> r} \<inter> set (map snd m))"
    using assms by (intro distinct_length_filter) (simp add: is_assignment_def)
  also have "{r. K \<le> r} \<inter> set (map snd m) = {K..<N}"
    unfolding assignment_cols[OF assms] by auto
  finally show ?thesis by simp
qed

lemma assignment_in_range:
  "is_assignment (max NR NH) m \<Longrightarrow> in_range NR NH m"
  by (auto simp add: is_assignment_def in_range_def list_all_iff)

lemma false_alarm_pairs:
  assumes "is_assignment (max NR NH) m"
  shows "length (pairs_of_kind FalseAlarm NR NH M m) = NH - NR"
proof -
  have "pairs_of_kind FalseAlarm NR NH M m = filter (\<lambda>p. NR \<le> fst p) m"
    unfolding pairs_of_kind_def by (rule filter_cong) (auto split: if_splits)
  then show ?thesis using count_rows_from[OF assms, of NR] by simp
qed

lemma missed_detection_pairs:
  assumes "is_assignment (max NR NH) m"
  shows "length (pairs_of_kind MissedDetection NR NH M m) = NR - NH"
proof -
  have b: "snd p < max NR NH" if "p \<in> set m" for p
    using assignment_bounds[OF assms, of "fst p" "snd p"] that by simp
  show ?thesis
  proof (cases "NR \<le> NH")
    case True
    have "kind_of NR NH M p \<noteq> MissedDetection" if "p \<in> set m" for p
      using b[OF that] True by (cases p) (simp add: max_def)
    then have "pairs_of_kind MissedDetection NR NH M m = []"
      by (simp add: pairs_of_kind_def)
    then show ?thesis using True by simp
  next
    case False
    have "(kind_of NR NH M p = MissedDetection) = (NH \<le> snd p)" if "p \<in> set m" for p
      using assignment_bounds[OF assms, of "fst p" "snd p"] that False
      by (cases p) (simp add: max_def)
    then have "pairs_of_kind MissedDetection NR NH M m = filter (\<lambda>p. NH \<le> snd p) m"
      unfolding pairs_of_kind_def by (intro filter_cong) simp_all
    then show ?thesis using count_cols_from[OF assms, of NH] False by simp
  qed
qed

lemma kinds_partition:
  "length (pairs_of_kind Correct NR NH M m) + length (pairs_of_kind Confusion NR NH M m) +
   length (pairs_of_kind MissedDetection NR NH M m) + length (pairs_of_kind FalseAlarm NR NH M m)
   = length m"
proof (induction m)
  case Nil
  then show ?case by (simp add: pairs_of_kind_def)
next
  case (Cons p m)
  then show ?case
    by (cases "kind_of NR NH M p") (simp_all add: pairs_of_kind_def del: kind_of.simps)
qed

text \<open>
  Assignments and bijections of the padded indices are the same thing: every bijection
  of \<open>{..<N}\<close> is an assignment when listed, and every assignment is the graph of one.
\<close>

lemma bijection_is_assignment:
  assumes "bij_betw f {..<N} {..<N}"
  shows "is_assignment N (map (\<lambda>r. (r, f r)) [0..<N])"
proof -
  have inj: "inj_on f {..<N}" and img: "f ` {..<N} = {..<N}"
    using assms by (simp_all add: bij_betw_def)
  have "distinct (map f [0..<N])"
    using inj by (simp add: distinct_map atLeast0LessThan)
  moreover have "f r < N" if "r < N" for r using img that by blast
  ultimately show ?thesis
    by (simp add: is_assignment_def comp_def list_all_iff)
qed

lemma assignment_is_bijection:
  assumes "is_assignment N m"
  shows "\<exists>f. bij_betw f {..<N} {..<N} \<and> set m = {(r, f r) | r. r < N}"
proof -
  define f where "f r = the (map_of m r)" for r
  have dfst: "distinct (map fst m)" and dsnd: "distinct (map snd m)"
    using assms by (simp_all add: is_assignment_def)
  have look: "f r = h" if "(r, h) \<in> set m" for r h
    using that dfst by (simp add: f_def)
  have st: "set m = {(r, f r) | r. r < N}"
  proof (intro set_eqI iffI)
    fix p assume p: "p \<in> set m"
    obtain r h where rh: "p = (r, h)" by (cases p)
    then show "p \<in> {(r, f r) | r. r < N}"
      using assignment_bounds[OF assms] look p by auto
  next
    fix p assume "p \<in> {(r, f r) | r. r < N}"
    then obtain r where r: "r < N" "p = (r, f r)" by auto
    then have "r \<in> set (map fst m)" using assignment_rows[OF assms] by simp
    then obtain h where "(r, h) \<in> set m" by auto
    then show "p \<in> set m" using look r by simp
  qed
  have "snd p = f (fst p)" if "p \<in> set m" for p
    using look[of "fst p" "snd p"] that by simp
  then have "map snd m = map f (map fst m)" by simp
  then have "distinct (map f (map fst m))" using dsnd by (simp only:)
  then have "inj_on f (set (map fst m))" by (simp only: distinct_map)
  then have "inj_on f {..<N}" by (simp only: assignment_rows[OF assms])
  moreover have "f ` {..<N} = {..<N}"
  proof -
    have "f ` {..<N} = snd ` set m" unfolding st by force
    then show ?thesis using assignment_cols[OF assms] by simp
  qed
  ultimately show ?thesis using st by (auto simp add: bij_betw_def)
qed

lemma assignment_zero: "is_assignment 0 m \<Longrightarrow> m = []"
  by (simp add: is_assignment_def)

lemma call_result:
  assumes "is_assignment (max (length rl) (length hl)) (computed_mapping mt munkres rl hl)"
  shows "\<exists>c d. call mt munkres (PySequence rl) (PySequence hl) = Inr (c, d) \<and>
     count_correct c = int (length (pairs_of_kind Correct (length rl) (length hl)
        (padded_matrix mt (max (length rl) (length hl)) rl hl) (computed_mapping mt munkres rl hl))) \<and>
     count_confusion c = int (length (pairs_of_kind Confusion (length rl) (length hl)
        (padded_matrix mt (max (length rl) (length hl)) rl hl) (computed_mapping mt munkres rl hl))) \<and>
     count_missed_detection c = int (length (pairs_of_kind MissedDetection (length rl) (length hl)
        (padded_matrix mt (max (length rl) (length hl)) rl hl) (computed_mapping mt munkres rl hl))) \<and>
     count_false_alarm c = int (length (pairs_of_kind FalseAlarm (length rl) (length hl)
        (padded_matrix mt (max (length rl) (length hl)) rl hl) (computed_mapping mt munkres rl hl))) \<and>
     count_total c = int (length rl) \<and>
     detail_correct d = map (\<lambda>(r, h). (rl ! r, hl ! h)) (pairs_of_kind Correct (length rl) (length hl)
        (padded_matrix mt (max (length rl) (length hl)) rl hl) (computed_mapping mt munkres rl hl)) \<and>
     detail_confusion d = map (\<lambda>(r, h). (rl ! r, hl ! h)) (pairs_of_kind Confusion (length rl) (length hl)
        (padded_matrix mt (max (length rl) (length hl)) rl hl) (computed_mapping mt munkres rl hl)) \<and>
     detail_missed_detection d = map (\<lambda>(r, h). rl ! r) (pairs_of_kind MissedDetection (length rl) (length hl)
        (padded_matrix mt (max (length rl) (length hl)) rl hl) (computed_mapping mt munkres rl hl)) \<and>
     detail_false_alarm d = map (\<lambda>(r, h). hl ! h) (pairs_of_kind FalseAlarm (length rl) (length hl)
        (padded_matrix mt (max (length rl) (length hl)) rl hl) (computed_mapping mt munkres rl hl))"
proof (cases "max (length rl) (length hl) = 0")
  case True
  then have e: "rl = []" "hl = []" by simp_all
  have m: "computed_mapping mt munkres rl hl = []"
    using assms True by (simp add: assignment_zero)
  show ?thesis unfolding m unfolding e
    by (simp add: call_def and_then_def init_counts_def init_details_def pairs_of_kind_def)
next
  case False
  define M where "M = padded_matrix mt (max (length rl) (length hl)) rl hl"
  define m where "m = computed_mapping mt munkres rl hl"
  have mm: "match_matrix mt (max (length rl) (length hl)) rl hl = Inr M"
    unfolding M_def by (rule match_matrix_padded) simp_all
  have mp: "munkres (cost_matrix M) = m"
    by (simp add: m_def M_def computed_mapping_padded)
  have ws: "well_shaped (max (length rl) (length hl)) M"
    unfolding M_def by (rule well_shaped_padded)
  have rng: "in_range (length rl) (length hl) m"
    using assms unfolding m_def by (rule assignment_in_range)
  from loop_on_matches_in_range[OF ws rng, of init_counts init_details]
  obtain c' d' where loop:
    "loop_on_matches (length rl) (length hl) rl hl M m (init_counts, init_details) = Inr (c', d')"
    and flds:
    "count_correct c' = int (length (pairs_of_kind Correct (length rl) (length hl) M m))"
    "count_confusion c' = int (length (pairs_of_kind Confusion (length rl) (length hl) M m))"
    "count_missed_detection c' = int (length (pairs_of_kind MissedDetection (length rl) (length hl) M m))"
    "count_false_alarm c' = int (length (pairs_of_kind FalseAlarm (length rl) (length hl) M m))"
    "count_total c' = 0"
    "detail_correct d' = map (\<lambda>(r, h). (rl ! r, hl ! h)) (pairs_of_kind Correct (length rl) (length hl) M m)"
    "detail_confusion d' = map (\<lambda>(r, h). (rl ! r, hl ! h)) (pairs_of_kind Confusion (length rl) (length hl) M m)"
    "detail_missed_detection d' = map (\<lambda>(r, h). rl ! r) (pairs_of_kind MissedDetection (length rl) (length hl) M m)"
    "detail_false_alarm d' = map (\<lambda>(r, h). hl ! h) (pairs_of_kind FalseAlarm (length rl) (length hl) M m)"
    by (auto simp add: init_counts_def init_details_def)
  have "call mt munkres (PySequence rl) (PySequence hl) =
      Inr (c'\<lparr>count_total := count_total c' + int (length rl)\<rparr>, d')"
    using False mm mp loop by (auto simp add: call_def and_then_def Let_def)
  then show ?thesis using flds unfolding M_def[symmetric] m_def[symmetric] by simp
qed

lemma insert_all_mid: "as @ x # bs \<in> set (insert_all x (as @ bs))"
  by (induction as) (cases bs, auto)

lemma perms_complete: "mset ys = mset xs \<Longrightarrow> ys \<in> set (perms xs)"
proof (induction xs arbitrary: ys)
  case Nil
  then show ?case by simp
next
  case (Cons x xs)
  then have "x \<in> set ys" by (metis list.set_intros(1) mset_eq_setD)
  then obtain as bs where ys: "ys = as @ x # bs" by (auto simp add: in_set_conv_decomp)
  with Cons.prems have "mset (as @ bs) = mset xs" by simp
  then have "as @ bs \<in> set (perms xs)" by (rule Cons.IH)
  then show ?case unfolding ys using insert_all_mid[of as x bs] by auto
qed

lemma insert_all_mset: "zs \<in> set (insert_all x ys) \<Longrightarrow> mset zs = add_mset x (mset ys)"
  by (induction ys arbitrary: zs) auto

lemma perms_sound: "ys \<in> set (perms xs) \<Longrightarrow> mset ys = mset xs"
  by (induction xs arbitrary: ys) (auto simp add: insert_all_mset)

lemma perms_nonempty: "perms xs \<noteq> []"
proof -
  have "xs \<in> set (perms xs)" by (rule perms_complete) simp
  then show ?thesis by auto
qed

lemma assignment_cost_mset:
  "mset m = mset m' \<Longrightarrow> assignment_cost C m = assignment_cost C m'"
proof -
  assume "mset m = mset m'"
  then have "mset (map (\<lambda>(r, h). C ! r ! h) m) = mset (map (\<lambda>(r, h). C ! r ! h) m')"
    by simp
  then have "sum_mset (mset (map (\<lambda>(r, h). C ! r ! h) m))
           = sum_mset (mset (map (\<lambda>(r, h). C ! r ! h) m'))"
    by (rule arg_cong)
  then show ?thesis unfolding assignment_cost_def sum_mset_sum_list .
qed

lemma zip_upt_map: "zip xs (map f xs) = map (\<lambda>x. (x, f x)) xs"
  by (induction xs) simp_all

lemma assignment_enumerated:
  assumes "is_assignment N m"
  shows "\<exists>m' \<in> set (all_assignments N). mset m' = mset m"
proof -
  define f where "f r = the (map_of m r)" for r
  define m' where "m' = map (\<lambda>r. (r, f r)) [0..<N]"
  have dfst: "distinct (map fst m)" and dsnd: "distinct (map snd m)"
    using assms by (simp_all add: is_assignment_def)
  have dm: "distinct m" using dfst by (simp add: distinct_map)
  have look: "f r = h" if "(r, h) \<in> set m" for r h
    using that dfst by (simp add: f_def)
  have "set m' = set m"
  proof (intro set_eqI iffI)
    fix p assume "p \<in> set m'"
    then obtain r where r: "r < N" "p = (r, f r)" by (auto simp add: m'_def)
    then have "r \<in> set (map fst m)" using assignment_rows[OF assms] by simp
    then obtain h where "(r, h) \<in> set m" by auto
    then show "p \<in> set m" using look r by simp
  next
    fix p assume p: "p \<in> set m"
    obtain r h where rh: "p = (r, h)" by (cases p)
    have "r < N" using assignment_bounds[OF assms] p rh by simp
    then show "p \<in> set m'" using look p rh by (auto simp add: m'_def)
  qed
  moreover have "distinct m'"
    by (simp add: m'_def distinct_map inj_on_def)
  ultimately have ms: "mset m' = mset m"
    using dm by (simp add: set_eq_iff_mset_eq_distinct)
  then have "mset (map snd m') = mset (map snd m)" by simp
  also have "\<dots> = mset [0..<N]"
    using dsnd assignment_cols[OF assms]
    by (subst set_eq_iff_mset_eq_distinct[symmetric]) (simp_all add: atLeast0LessThan)
  finally have "map snd m' \<in> set (perms [0..<N])" by (rule perms_complete)
  moreover have "m' = zip [0..<N] (map snd m')"
    by (simp add: m'_def zip_upt_map comp_def)
  ultimately have "m' \<in> set (all_assignments N)"
    unfolding all_assignments_def by (metis image_eqI set_map)
  with ms show ?thesis by blast
qed

lemma optimal_least:
  assumes "is_optimal N C m" "is_assignment N m'"
  shows "assignment_cost C m \<le> assignment_cost C m'"
proof -
  from assignment_enumerated[OF assms(2)]
  obtain m'' where "m'' \<in> set (all_assignments N)" "mset m'' = mset m'" by blast
  then show ?thesis
    using assms(1) assignment_cost_mset[of m'' m' C]
    by (auto simp add: is_optimal_def list_all_iff)
qed

lemma cost_matrix_nth:
  "well_shaped N M \<Longrightarrow> r < N \<Longrightarrow> h < N \<Longrightarrow>
   cost_matrix M ! r ! h = (if M ! r ! h then 0 else 1)"
  by (simp add: cost_matrix_def well_shaped_def list_all_length)

lemma cost_num_matched:
  "list_all (\<lambda>(r, h). r < N \<and> h < N) m \<Longrightarrow>
   assignment_cost (cost_matrix (padded_matrix mt N rl hl)) m
     = int (length m) - int (num_matched mt rl hl m)"
proof (induction m)
  case Nil
  then show ?case by (simp add: assignment_cost_def num_matched_def)
next
  case (Cons p m)
  obtain r h where p: "p = (r, h)" by (cases p)
  have b: "r < N" "h < N" using Cons.prems by (simp_all add: p)
  have "cost_matrix (padded_matrix mt N rl hl) ! r ! h =
      (if r < length rl \<and> h < length hl \<and> mt (rl ! r) (hl ! h) then 0 else 1)"
    using b by (simp add: cost_matrix_nth[OF well_shaped_padded] padded_matrix_nth)
  moreover have "assignment_cost (cost_matrix (padded_matrix mt N rl hl)) m
     = int (length m) - int (num_matched mt rl hl m)"
    using Cons by simp
  ultimately show ?case
    by (simp add: assignment_cost_def num_matched_def p)
qed

lemma num_matched_le: "num_matched mt rl hl m \<le> length m"
  by (simp add: num_matched_def)

lemma correct_pairs_num_matched:
  assumes "list_all (\<lambda>(r, h). r < N \<and> h < N) m"
  shows "length (pairs_of_kind Correct (length rl) (length hl) (padded_matrix mt N rl hl) m)
          = num_matched mt rl hl m"
proof -
  have "(kind_of (length rl) (length hl) (padded_matrix mt N rl hl) p = Correct) =
        (case p of (r, h) \<Rightarrow> r < length rl \<and> h < length hl \<and> mt (rl ! r) (hl ! h))"
    if "p \<in> set m" for p
  proof -
    obtain r h where p: "p = (r, h)" by (cases p)
    have "r < N" "h < N" using assms that by (auto simp add: list_all_iff p)
    then show ?thesis by (auto simp add: p padded_matrix_nth)
  qed
  then have "pairs_of_kind Correct (length rl) (length hl) (padded_matrix mt N rl hl) m =
      filter (\<lambda>(r, h). r < length rl \<and> h < length hl \<and> mt (rl ! r) (hl ! h)) m"
    unfolding pairs_of_kind_def by (intro filter_cong) simp_all
  then show ?thesis by (simp add: num_matched_def)
qed

lemma optimal_num_matched:
  assumes "is_optimal N (cost_matrix (padded_matrix mt N rl hl)) m" "is_assignment N m'"
  shows "num_matched mt rl hl m' \<le> num_matched mt rl hl m"
proof -
  have a: "is_assignment N m" using assms(1) by (simp add: is_optimal_def)
  have "int N - int (num_matched mt rl hl m) \<le> int N - int (num_matched mt rl hl m')"
    using optimal_least[OF assms] a assms(2)
      cost_num_matched[of N m mt rl hl] cost_num_matched[of N m' mt rl hl]
    by (simp add: is_assignment_def)
  then show ?thesis by simp
qed

lemma optimal_num_matched_Max:
  assumes "is_optimal N (cost_matrix (padded_matrix mt N rl hl)) m"
  shows "num_matched mt rl hl m = Max {num_matched mt rl hl m' | m'. is_assignment N m'}"
proof (rule Max_eqI[symmetric])
  have "{num_matched mt rl hl m' | m'. is_assignment N m'} \<subseteq> {..N}"
    using num_matched_le[of mt rl hl] by (auto simp add: is_assignment_def)
  then show "finite {num_matched mt rl hl m' | m'. is_assignment N m'}"
    by (rule finite_subset) simp
next
  fix y assume "y \<in> {num_matched mt rl hl m' | m'. is_assignment N m'}"
  then show "y \<le> num_matched mt rl hl m"
    using optimal_num_matched[OF assms] by auto
next
  show "num_matched mt rl hl m \<in> {num_matched mt rl hl m' | m'. is_assignment N m'}"
    using assms by (auto simp add: is_optimal_def)
qed

lemma enumerated_assignment:
  assumes "m \<in> set (all_assignments N)"
  shows "is_assignment N m"
proof -
  from assms obtain p where p: "p \<in> set (perms [0..<N])" "m = zip [0..<N] p"
    by (auto simp add: all_assignments_def)
  have ms: "mset p = mset [0..<N]" using p(1) by (rule perms_sound)
  then have len: "length p = N" by (metis length_upt mset_eq_length minus_nat.diff_0)
  have dist: "distinct p" using ms by (metis distinct_upt mset_eq_imp_distinct_iff)
  have st: "set p = {0..<N}" using ms by (metis mset_eq_setD set_upt)
  have "map fst m = [0..<N]" "map snd m = p" using len by (simp_all add: p(2))
  moreover have "r < N \<and> h < N" if "(r, h) \<in> set m" for r h
    using set_zip_leftD[of r h "[0..<N]" p] set_zip_rightD[of r h "[0..<N]" p] that st
    by (simp add: p(2))
  then have "list_all (\<lambda>(r, h). r < N \<and> h < N) m"
    unfolding list_all_iff by auto
  ultimately show ?thesis using len dist by (simp add: is_assignment_def p(2))
qed

lemma brute_force_optimal: "is_optimal (length C) C (brute_force C)"
proof -
  let ?xs = "all_assignments (length C)"
  have ne: "?xs \<noteq> []" by (simp add: all_assignments_def perms_nonempty)
  have "brute_force C \<in> set ?xs" unfolding brute_force_def by (rule arg_min_list_in[OF ne])
  then have a: "is_assignment (length C) (brute_force C)" by (rule enumerated_assignment)
  have "assignment_cost C (brute_force C) = Min (assignment_cost C ` set ?xs)"
    unfolding brute_force_def by (rule f_arg_min_list_f[OF ne])
  then have "\<forall>m' \<in> set ?xs. assignment_cost C (brute_force C) \<le> assignment_cost C m'"
    by simp
  with a show ?thesis by (simp add: is_optimal_def list_all_iff)
qed

lemma brute_force_last_optimal: "is_optimal (length C) C (brute_force_last C)"
proof -
  let ?xs = "rev (all_assignments (length C))"
  have ne: "?xs \<noteq> []" by (simp add: all_assignments_def perms_nonempty)
  have "brute_force_last C \<in> set ?xs"
    unfolding brute_force_last_def by (rule arg_min_list_in[OF ne])
  then have a: "is_assignment (length C) (brute_force_last C)"
    by (simp add: enumerated_assignment)
  have "assignment_cost C (brute_force_last C) = Min (assignment_cost C ` set ?xs)"
    unfolding brute_force_last_def by (rule f_arg_min_list_f[OF ne])
  then have "\<forall>m' \<in> set ?xs. assignment_cost C (brute_force_last C) \<le> assignment_cost C m'"
    by simp
  with a show ?thesis by (simp add: is_optimal_def list_all_iff)
qed

lemma solver_input_length: "length (solver_input mt rl hl) = max (length rl) (length hl)"
  by (simp add: solver_input_padded cost_matrix_def padded_matrix_def)

lemma brute_force_returns_optimal: "returns_optimal mt brute_force rl hl"
  using brute_force_optimal[of "solver_input mt rl hl"]
  by (simp add: returns_optimal_def computed_mapping_def solver_input_length)

lemma brute_force_last_returns_optimal: "returns_optimal mt brute_force_last rl hl"
  using brute_force_last_optimal[of "solver_input mt rl hl"]
  by (simp add: returns_optimal_def computed_mapping_def solver_input_length)

subsection \<open>The result of \<^verbatim>\<open>__call__\<close> on two lists\<close>

lemma call_classified:
  assumes "is_assignment (max (length rl) (length hl)) (computed_mapping mt munkres rl hl)"
  shows "call mt munkres (PySequence rl) (PySequence hl) =
     Inr (spec_classification (length rl) (length hl) rl hl
            (padded_matrix mt (max (length rl) (length hl)) rl hl)
            (computed_mapping mt munkres rl hl))"
proof -
  from call_result[OF assms] obtain c d where
    "call mt munkres (PySequence rl) (PySequence hl) = Inr (c, d)"
    "(c, d) = spec_classification (length rl) (length hl) rl hl
            (padded_matrix mt (max (length rl) (length hl)) rl hl)
            (computed_mapping mt munkres rl hl)"
    by (auto simp add: spec_classification_def)
  then show ?thesis by simp
qed

lemma call_counts:
  assumes "returns_assignment mt munkres rl hl"
  shows "\<exists>c d. call mt munkres (PySequence rl) (PySequence hl) = Inr (c, d) \<and>
     count_correct c = int (num_matched mt rl hl (computed_mapping mt munkres rl hl)) \<and>
     count_correct c + count_confusion c = int (min (length rl) (length hl)) \<and>
     count_missed_detection c = int (length rl - length hl) \<and>
     count_false_alarm c = int (length hl - length rl) \<and>
     count_total c = int (length rl) \<and>
     count_correct c = int (length (detail_correct d)) \<and>
     count_confusion c = int (length (detail_confusion d)) \<and>
     count_missed_detection c = int (length (detail_missed_detection d)) \<and>
     count_false_alarm c = int (length (detail_false_alarm d))"
proof -
  let ?N = "max (length rl) (length hl)"
  let ?M = "padded_matrix mt ?N rl hl"
  let ?m = "computed_mapping mt munkres rl hl"
  let ?K = "\<lambda>k. length (pairs_of_kind k (length rl) (length hl) ?M ?m)"
  have a: "is_assignment ?N ?m" using assms by (simp add: returns_assignment_def)
  then have b: "list_all (\<lambda>(r, h). r < ?N \<and> h < ?N) ?m" and len: "length ?m = ?N"
    by (simp_all add: is_assignment_def)
  have co: "?K Correct = num_matched mt rl hl ?m"
    by (rule correct_pairs_num_matched[OF b])
  have fa: "?K FalseAlarm = length hl - length rl"
    by (rule false_alarm_pairs[OF a])
  have md: "?K MissedDetection = length rl - length hl"
    by (rule missed_detection_pairs[OF a])
  have "?K Correct + ?K Confusion + ?K MissedDetection + ?K FalseAlarm = ?N"
    using kinds_partition[of "length rl" "length hl" ?M ?m] len by simp
  then have cc: "?K Correct + ?K Confusion = min (length rl) (length hl)"
    using fa md by (simp add: max_def min_def split: if_splits)
  have "int (?K Correct) + int (?K Confusion) = int (min (length rl) (length hl))"
    using cc by (simp only: of_nat_add[symmetric])
  then show ?thesis
    unfolding call_classified[OF a]
    by (simp add: spec_classification_def co[symmetric] fa md)
qed

lemma optimal_correct_count:
  assumes "returns_optimal mt munkres rl hl"
  shows "returns_assignment mt munkres rl hl"
    and "num_matched mt rl hl (computed_mapping mt munkres rl hl) =
           Max {num_matched mt rl hl m' | m'. is_assignment (max (length rl) (length hl)) m'}"
proof -
  have o: "is_optimal (max (length rl) (length hl))
      (cost_matrix (padded_matrix mt (max (length rl) (length hl)) rl hl))
      (computed_mapping mt munkres rl hl)"
    using assms by (simp add: returns_optimal_def solver_input_padded)
  then show "returns_assignment mt munkres rl hl"
    by (simp add: returns_assignment_def is_optimal_def)
  show "num_matched mt rl hl (computed_mapping mt munkres rl hl) =
           Max {num_matched mt rl hl m' | m'. is_assignment (max (length rl) (length hl)) m'}"
    by (rule optimal_num_matched_Max[OF o])
qed

subsection \<open>The examples of the specification\<close>

lemma example_identical:
  "call match brute_force (PySequence [''A'', ''B'']) (PySequence [''A'', ''B'']) =
     Inr (\<lparr>count_correct = 2, count_confusion = 0, count_missed_detection = 0,
           count_false_alarm = 0, count_total = 2\<rparr>,
          \<lparr>detail_correct = [(''A'', ''A''), (''B'', ''B'')], detail_confusion = [],
           detail_missed_detection = [], detail_false_alarm = []\<rparr>)"
  by code_simp

lemma example_false_alarm:
  "call match brute_force (PySequence []) (PySequence [''X'']) =
     Inr (\<lparr>count_correct = 0, count_confusion = 0, count_missed_detection = 0,
           count_false_alarm = 1, count_total = 0\<rparr>,
          \<lparr>detail_correct = [], detail_confusion = [],
           detail_missed_detection = [], detail_false_alarm = [''X'']\<rparr>)"
  by code_simp

lemma example_missed_detection:
  "call match brute_force (PySequence [''X'']) (PySequence []) =
     Inr (\<lparr>count_correct = 0, count_confusion = 0, count_missed_detection = 1,
           count_false_alarm = 0, count_total = 1\<rparr>,
          \<lparr>detail_correct = [], detail_confusion = [],
           detail_missed_detection = [''X''], detail_false_alarm = []\<rparr>)"
  by code_simp

lemma example_confusion:
  "call match brute_force (PySequence [''A'']) (PySequence [''B'']) =
     Inr (\<lparr>count_correct = 0, count_confusion = 1, count_missed_detection = 0,
           count_false_alarm = 0, count_total = 1\<rparr>,
          \<lparr>detail_correct = [], detail_confusion = [(''A'', ''B'')],
           detail_missed_detection = [], detail_false_alarm = []\<rparr>)"
  by code_simp

lemma example_unknown:
  "call match_unknown brute_force
     (PySequence [Unknown 1 :: string label]) (PySequence [Unknown 2]) =
     Inr (\<lparr>count_correct = 1, count_confusion = 0, count_missed_detection = 0,
           count_false_alarm = 0, count_total = 1\<rparr>,
          \<lparr>detail_correct = [(Unknown 1, Unknown 2)], detail_confusion = [],
           detail_missed_detection = [], detail_false_alarm = []\<rparr>)"
  by code_simp

lemma example_crossed:
  "call match brute_force (PySequence [1 :: nat, 2]) (PySequence [2 :: nat, 1, 3]) =
     Inr (\<lparr>count_correct = 2, count_confusion = 0, count_missed_detection = 0,
           count_false_alarm = 1, count_total = 2\<rparr>,
          \<lparr>detail_correct = [(1, 1), (2, 2)], detail_confusion = [],
           detail_missed_detection = [], detail_false_alarm = [3 :: nat]\<rparr>)"
  by code_simp

lemma example_tie_details:
  "snd (projr (call match brute_force (PySequence [1 :: nat, 2]) (PySequence [3 :: nat, 4])))
     \<noteq> snd (projr (call match brute_force_last (PySequence [1 :: nat, 2]) (PySequence [3 :: nat, 4])))"
  by code_simp

subsection \<open>The two predicates\<close>

text \<open>
  C5: the base predicate \<^verbatim>\<open>LabelMatcher.match\<close> is true if and only if the two labels
  are equal.
\<close>

theorem match_iff_equal: "match rlabel hlabel \<longleftrightarrow> rlabel = hlabel"
  by (simp add: match_def)

text \<open>
  C4: the unknown-aware predicate is true on any two Unknown placeholders, whatever
  instance data they carry, and on every other pair of labels it is value equality.
\<close>

theorem match_unknown_spec:
  "match_unknown (Unknown i) (Unknown j) \<and>
   match_unknown (Label a) hlabel = (Label a = hlabel) \<and>
   match_unknown rlabel (Label b) = (rlabel = Label b)"
  by (cases rlabel; cases hlabel) (simp_all add: match_unknown_def)

subsection \<open>The corner case\<close>

text \<open>
  C6: on two empty sequences \<^verbatim>\<open>__call__\<close> returns the five counts at zero and the four
  detail lists empty; the result is the same for every solver, which is never consulted.
\<close>

theorem call_empty:
  "call mt munkres (PySequence []) (PySequence []) =
     Inr (\<lparr>count_correct = 0, count_confusion = 0, count_missed_detection = 0,
           count_false_alarm = 0, count_total = 0\<rparr>,
          \<lparr>detail_correct = [], detail_confusion = [],
           detail_missed_detection = [], detail_false_alarm = []\<rparr>)"
  by (simp add: call_def and_then_def init_counts_def init_details_def)

subsection \<open>Classification and accounting\<close>

text \<open>
  C3: when the solver returns an assignment of the padded indices, \<^verbatim>\<open>__call__\<close> builds
  the match matrix and returns exactly the classification of the specification: every
  pair of the mapping is counted under the one kind that the precedence (padding row,
  then padding column, then the matrix entry) gives it, with the hypothesis label, the
  reference label or the pair of labels as its detail.
\<close>

theorem call_classifies_mapping:
  assumes "returns_assignment mt munkres rl hl"
  shows "\<exists>M. match_matrix mt (max (length rl) (length hl)) rl hl = Inr M \<and>
     call mt munkres (PySequence rl) (PySequence hl) =
       Inr (spec_classification (length rl) (length hl) rl hl M (munkres (cost_matrix M)))"
proof -
  let ?M = "padded_matrix mt (max (length rl) (length hl)) rl hl"
  have a: "is_assignment (max (length rl) (length hl)) (computed_mapping mt munkres rl hl)"
    using assms by (simp add: returns_assignment_def)
  have "match_matrix mt (max (length rl) (length hl)) rl hl = Inr ?M"
    by (rule match_matrix_padded) simp_all
  moreover have "call mt munkres (PySequence rl) (PySequence hl) =
       Inr (spec_classification (length rl) (length hl) rl hl ?M (munkres (cost_matrix ?M)))"
    using call_classified[OF a] by (simp add: computed_mapping_padded)
  ultimately show ?thesis by blast
qed

theorem call_classifies_mapping_witness:
  "returns_assignment match brute_force [1 :: nat, 2] [2 :: nat, 1, 3] \<and>
   (\<exists>M. match_matrix match (max (length [1 :: nat, 2]) (length [2 :: nat, 1, 3]))
           [1 :: nat, 2] [2 :: nat, 1, 3] = Inr M \<and>
     call match brute_force (PySequence [1 :: nat, 2]) (PySequence [2 :: nat, 1, 3]) =
       Inr (spec_classification (length [1 :: nat, 2]) (length [2 :: nat, 1, 3])
              [1 :: nat, 2] [2 :: nat, 1, 3] M (brute_force (cost_matrix M))))"
proof -
  have h: "returns_assignment match brute_force [1 :: nat, 2] [2 :: nat, 1, 3]" by code_simp
  show ?thesis using h call_classifies_mapping[OF h] by (rule conjI)
qed

text \<open>
  C2: when the solver returns an assignment, the four outcome counts add up to
  \<open>max NR NH\<close> and the total is \<open>NR\<close>.
\<close>

theorem counts_conservation:
  assumes "returns_assignment mt munkres rl hl"
  shows "\<exists>c d. call mt munkres (PySequence rl) (PySequence hl) = Inr (c, d) \<and>
     count_correct c + count_confusion c + count_missed_detection c + count_false_alarm c
       = int (max (length rl) (length hl)) \<and>
     count_total c = int (length rl)"
proof -
  from call_counts[OF assms] obtain c d where
    "call mt munkres (PySequence rl) (PySequence hl) = Inr (c, d)"
    "count_correct c + count_confusion c = int (min (length rl) (length hl))"
    "count_missed_detection c = int (length rl - length hl)"
    "count_false_alarm c = int (length hl - length rl)"
    "count_total c = int (length rl)"
    by blast
  then show ?thesis by (intro exI[of _ c] exI[of _ d]) (simp add: max_def min_def)
qed

theorem counts_conservation_witness:
  "returns_assignment match brute_force [1 :: nat, 2] [2 :: nat, 1, 3] \<and>
   (\<exists>c d. call match brute_force (PySequence [1 :: nat, 2]) (PySequence [2 :: nat, 1, 3]) = Inr (c, d) \<and>
     count_correct c + count_confusion c + count_missed_detection c + count_false_alarm c
       = int (max (length [1 :: nat, 2]) (length [2 :: nat, 1, 3])) \<and>
     count_total c = int (length [1 :: nat, 2]))"
proof -
  have h: "returns_assignment match brute_force [1 :: nat, 2] [2 :: nat, 1, 3]" by code_simp
  show ?thesis using h counts_conservation[OF h] by (rule conjI)
qed

text \<open>
  C9: when the solver returns an assignment, whichever it is and whatever the labels
  are, the missed detections number \<open>max 0 (NR - NH)\<close>, the false alarms
  \<open>max 0 (NH - NR)\<close>, and correct plus confusion is \<open>min NR NH\<close>.
\<close>

theorem missed_and_false_alarm_counts:
  assumes "returns_assignment mt munkres rl hl"
  shows "\<exists>c d. call mt munkres (PySequence rl) (PySequence hl) = Inr (c, d) \<and>
     count_missed_detection c = max 0 (int (length rl) - int (length hl)) \<and>
     count_false_alarm c = max 0 (int (length hl) - int (length rl)) \<and>
     count_correct c + count_confusion c = int (min (length rl) (length hl))"
proof -
  from call_counts[OF assms] obtain c d where
    "call mt munkres (PySequence rl) (PySequence hl) = Inr (c, d)"
    "count_correct c + count_confusion c = int (min (length rl) (length hl))"
    "count_missed_detection c = int (length rl - length hl)"
    "count_false_alarm c = int (length hl - length rl)"
    by blast
  then show ?thesis by (intro exI[of _ c] exI[of _ d]) (simp add: max_def)
qed

theorem missed_and_false_alarm_counts_witness:
  "returns_assignment match brute_force [5 :: nat, 6, 7] [6 :: nat] \<and>
   (\<exists>c d. call match brute_force (PySequence [5 :: nat, 6, 7]) (PySequence [6 :: nat]) = Inr (c, d) \<and>
     count_missed_detection c = max 0 (int (length [5 :: nat, 6, 7]) - int (length [6 :: nat])) \<and>
     count_false_alarm c = max 0 (int (length [6 :: nat]) - int (length [5 :: nat, 6, 7])) \<and>
     count_correct c + count_confusion c = int (min (length [5 :: nat, 6, 7]) (length [6 :: nat])))"
proof -
  have h: "returns_assignment match brute_force [5 :: nat, 6, 7] [6 :: nat]" by code_simp
  show ?thesis using h missed_and_false_alarm_counts[OF h] by (rule conjI)
qed

text \<open>
  C10: when the solver returns an assignment, each of the four outcome counts equals the
  length of the detail list of the same kind.
\<close>

theorem counts_are_detail_lengths:
  assumes "returns_assignment mt munkres rl hl"
  shows "\<exists>c d. call mt munkres (PySequence rl) (PySequence hl) = Inr (c, d) \<and>
     count_correct c = int (length (detail_correct d)) \<and>
     count_confusion c = int (length (detail_confusion d)) \<and>
     count_missed_detection c = int (length (detail_missed_detection d)) \<and>
     count_false_alarm c = int (length (detail_false_alarm d))"
  using call_counts[OF assms] by blast

theorem counts_are_detail_lengths_witness:
  "returns_assignment match brute_force [1 :: nat, 2, 9] [2 :: nat, 1] \<and>
   (\<exists>c d. call match brute_force (PySequence [1 :: nat, 2, 9]) (PySequence [2 :: nat, 1]) = Inr (c, d) \<and>
     count_correct c = int (length (detail_correct d)) \<and>
     count_confusion c = int (length (detail_confusion d)) \<and>
     count_missed_detection c = int (length (detail_missed_detection d)) \<and>
     count_false_alarm c = int (length (detail_false_alarm d)))"
proof -
  have h: "returns_assignment match brute_force [1 :: nat, 2, 9] [2 :: nat, 1]" by code_simp
  show ?thesis using h counts_are_detail_lengths[OF h] by (rule conjI)
qed

subsection \<open>Optimality and determinism\<close>

text \<open>
  C1: when the solver returns an assignment of least cost for \<^verbatim>\<open>1 - match\<close>, the
  correct count is the greatest number of matching pairs \<open>(r, h)\<close>, \<open>r < NR\<close>,
  \<open>h < NH\<close>, that any one-to-one pairing of the \<open>max NR NH\<close> padded row indices with
  the padded column indices contains.
\<close>

theorem correct_count_is_maximum:
  assumes "returns_optimal mt munkres rl hl"
  shows "\<exists>c d. call mt munkres (PySequence rl) (PySequence hl) = Inr (c, d) \<and>
     count_correct c =
       int (Max {num_matched mt rl hl m' | m'. is_assignment (max (length rl) (length hl)) m'})"
proof -
  note o = optimal_correct_count[OF assms]
  from call_counts[OF o(1)] obtain c d where
    "call mt munkres (PySequence rl) (PySequence hl) = Inr (c, d)"
    "count_correct c = int (num_matched mt rl hl (computed_mapping mt munkres rl hl))"
    by blast
  then show ?thesis using o(2) by auto
qed

theorem correct_count_is_maximum_witness:
  "returns_optimal match brute_force [1 :: nat, 2] [2 :: nat, 1, 3] \<and>
   (\<exists>c d. call match brute_force (PySequence [1 :: nat, 2]) (PySequence [2 :: nat, 1, 3]) = Inr (c, d) \<and>
     count_correct c =
       int (Max {num_matched match [1 :: nat, 2] [2 :: nat, 1, 3] m' | m'.
                   is_assignment (max (length [1 :: nat, 2]) (length [2 :: nat, 1, 3])) m'}))"
proof -
  have h: "returns_optimal match brute_force [1 :: nat, 2] [2 :: nat, 1, 3]" by code_simp
  show ?thesis using h correct_count_is_maximum[OF h] by (rule conjI)
qed

text \<open>
  C7: two invocations on the same label sequences return the same counts, also on two
  matcher instances whose solvers pick different assignments of least cost.
\<close>

theorem counts_deterministic:
  assumes "returns_optimal mt munkres1 rl hl" and "returns_optimal mt munkres2 rl hl"
  shows "\<exists>c d1 d2. call mt munkres1 (PySequence rl) (PySequence hl) = Inr (c, d1) \<and>
                   call mt munkres2 (PySequence rl) (PySequence hl) = Inr (c, d2)"
proof -
  note o1 = optimal_correct_count[OF assms(1)]
  note o2 = optimal_correct_count[OF assms(2)]
  from call_counts[OF o1(1)] obtain c1 d1 where 1:
    "call mt munkres1 (PySequence rl) (PySequence hl) = Inr (c1, d1)"
    "count_correct c1 = int (num_matched mt rl hl (computed_mapping mt munkres1 rl hl))"
    "count_correct c1 + count_confusion c1 = int (min (length rl) (length hl))"
    "count_missed_detection c1 = int (length rl - length hl)"
    "count_false_alarm c1 = int (length hl - length rl)"
    "count_total c1 = int (length rl)"
    by blast
  from call_counts[OF o2(1)] obtain c2 d2 where 2:
    "call mt munkres2 (PySequence rl) (PySequence hl) = Inr (c2, d2)"
    "count_correct c2 = int (num_matched mt rl hl (computed_mapping mt munkres2 rl hl))"
    "count_correct c2 + count_confusion c2 = int (min (length rl) (length hl))"
    "count_missed_detection c2 = int (length rl - length hl)"
    "count_false_alarm c2 = int (length hl - length rl)"
    "count_total c2 = int (length rl)"
    by blast
  have "count_correct c1 = count_correct c2"
    using 1(2) 2(2) o1(2) o2(2) by simp
  then have "c1 = c2"
    using 1(3-6) 2(3-6) by (cases c1, cases c2) simp
  then show ?thesis using 1(1) 2(1) by blast
qed

theorem counts_deterministic_witness:
  "returns_optimal match brute_force [1 :: nat, 2] [3 :: nat, 4] \<and>
   returns_optimal match brute_force_last [1 :: nat, 2] [3 :: nat, 4] \<and>
   (\<exists>c d1 d2. call match brute_force (PySequence [1 :: nat, 2]) (PySequence [3 :: nat, 4]) = Inr (c, d1) \<and>
               call match brute_force_last (PySequence [1 :: nat, 2]) (PySequence [3 :: nat, 4]) = Inr (c, d2))"
proof -
  have h1: "returns_optimal match brute_force [1 :: nat, 2] [3 :: nat, 4]" by code_simp
  have h2: "returns_optimal match brute_force_last [1 :: nat, 2] [3 :: nat, 4]" by code_simp
  show ?thesis using h1 h2 counts_deterministic[OF h1 h2] by blast
qed

subsection \<open>Malformed inputs\<close>

lemma example_generator:
  "call match brute_force (PyObject (Inl TypeError) (Inr [1 :: nat, 2])) (PySequence [1 :: nat])
     = Inl TypeError"
  by (simp add: call_def and_then_def)

lemma example_negative_length:
  "call match brute_force (PySequence [1 :: nat]) (PyObject (Inl ValueError) (Inr [1 :: nat]))
     = Inl ValueError"
  by (simp add: call_def and_then_def)

lemma example_not_iterable:
  "call match brute_force (PyObject (Inr 2) (Inl TypeError)) (PySequence [1 :: nat])
     = Inl TypeError"
  by (simp add: call_def and_then_def)

text \<open>
  C8, as stated, fails: an object that reports length zero but cannot be iterated is
  malformed, and next to an empty sequence \<^verbatim>\<open>__call__\<close> returns the zero counts
  instead of raising, because the corner case returns before \<^verbatim>\<open>list\<close> is applied.
\<close>

theorem malformed_input_counterexample:
  "malformed (PyObject (Inr 0) (Inl TypeError) :: nat pyobj) \<and>
   call match brute_force (PyObject (Inr 0) (Inl TypeError) :: nat pyobj) (PySequence []) =
     Inr (init_counts, init_details)"
  by (simp add: malformed_def call_def and_then_def)

text \<open>
  C8, amended: on a malformed input \<^verbatim>\<open>__call__\<close> fails, before any matrix is built,
  with the exception that \<^verbatim>\<open>len\<close> or \<^verbatim>\<open>list\<close> raised on one of its arguments,
  whatever that exception is, and returns no counts or details; unless both arguments
  report length zero, in which case it returns the zero counts and empty details.
\<close>

theorem malformed_input_fails:
  assumes "malformed rlabels \<or> malformed hlabels"
  shows "if py_len rlabels = Inr 0 \<and> py_len hlabels = Inr 0
         then call mt munkres rlabels hlabels = Inr (init_counts, init_details)
         else \<exists>e. call mt munkres rlabels hlabels = Inl e \<and>
                (py_len rlabels = Inl e \<or> py_len hlabels = Inl e \<or>
                 py_list rlabels = Inl e \<or> py_list hlabels = Inl e)"
proof (cases "py_len rlabels")
  case (Inl e)
  then show ?thesis by (simp add: call_def and_then_def)
next
  case NR: (Inr NR)
  show ?thesis
  proof (cases "py_len hlabels")
    case (Inl e)
    then show ?thesis using NR by (simp add: call_def and_then_def)
  next
    case NH: (Inr NH)
    show ?thesis
    proof (cases "max NR NH = 0")
      case True
      then show ?thesis using NR NH by (simp add: call_def and_then_def)
    next
      case False
      then have nz: "\<not> (NR = 0 \<and> NH = 0)" by simp
      show ?thesis
      proof (cases "py_list rlabels")
        case (Inl e)
        then show ?thesis using NR NH False nz by (simp add: call_def and_then_def)
      next
        case rl: (Inr rl)
        then obtain e where "py_list hlabels = Inl e"
          using assms NR NH by (cases "py_list hlabels") (simp_all add: malformed_def)
        then show ?thesis using NR NH False nz rl by (simp add: call_def and_then_def)
      qed
    qed
  qed
qed

theorem malformed_input_fails_witness:
  "(malformed (PySequence [1 :: nat]) \<or> malformed (PyObject (Inl ValueError) (Inr [1 :: nat]))) \<and>
   (if py_len (PySequence [1 :: nat]) = Inr 0 \<and>
       py_len (PyObject (Inl ValueError) (Inr [1 :: nat])) = Inr 0
    then call match brute_force (PySequence [1 :: nat]) (PyObject (Inl ValueError) (Inr [1 :: nat]))
           = Inr (init_counts, init_details)
    else \<exists>e. call match brute_force (PySequence [1 :: nat])
                 (PyObject (Inl ValueError) (Inr [1 :: nat])) = Inl e \<and>
             (py_len (PySequence [1 :: nat]) = Inl e \<or>
              py_len (PyObject (Inl ValueError) (Inr [1 :: nat])) = Inl e \<or>
              py_list (PySequence [1 :: nat]) = Inl e \<or>
              py_list (PyObject (Inl ValueError) (Inr [1 :: nat])) = Inl e))"
proof -
  have h: "malformed (PySequence [1 :: nat]) \<or>
           malformed (PyObject (Inl ValueError) (Inr [1 :: nat]))"
    by (simp add: malformed_def)
  show ?thesis using h malformed_input_fails[OF h] by (rule conjI)
qed

end
